theory Spec2Isabelle
  imports Complex_Main "HOL-Library.Multiset" "HOL-Library.Sublist"
    "HOL-Library.Char_ord" "HOL-Library.List_Lexorder"
begin

section \<open>Ledger store (\<open>database/sqlite_connector.py\<close>)\<close>

text \<open>
  The three tables the decision path reads and writes. A row is a record whose fields are
  the columns the modelled code touches; the column names \<open>status\<close> and \<open>user_id\<close>
  occur in several tables and carry a table prefix here. Python floats are read as real
  numbers, SQLite timestamps as seconds on an integer clock, and the clock reading
  (\<open>datetime.now()\<close>, \<open>datetime('now')\<close>, \<open>CURRENT_TIMESTAMP\<close>) is the explicit
  argument \<open>now\<close>. An operation that opens one connection at a time is one step on the
  ledger. \<open>approve_appeal\<close> writes through a second connection while its own write is
  uncommitted; there the lock that SQLite holds for the open write is part of the model.
\<close>

record user =
  user_id :: string
  name :: string
  risk_score :: real
  account_age_days :: int
  u_status :: string
  balance :: real

record tx =
  transaction_id :: string
  source_user_id :: string
  target_user_id :: string
  amount :: real
  currency :: string
  transaction_type :: string
  timestamp :: int
  tx_status :: string
  is_suspicious :: int
  ai_risk_score :: real

record appeal =
  a_user_id :: string
  justification :: string
  a_status :: string
  created_at :: int
  reviewed_at :: "int option"
  reviewed_by :: "string option"

record db =
  users :: "user list"
  transactions :: "tx list"
  appeals :: "appeal list"

text \<open>\<open>SELECT * FROM users WHERE user_id = ?\<close> followed by \<open>fetchone\<close>.\<close>

definition get_user_by_id :: "db \<Rightarrow> string \<Rightarrow> user option" where
  "get_user_by_id d uid = find (\<lambda>u. user_id u = uid) (users d)"

text \<open>\<open>UPDATE users SET status = ? WHERE user_id = ?\<close>.\<close>

definition update_user_status :: "db \<Rightarrow> string \<Rightarrow> string \<Rightarrow> db" where
  "update_user_status d uid s =
     d\<lparr>users := map (\<lambda>u. if user_id u = uid then u\<lparr>u_status := s\<rparr> else u) (users d)\<rparr>"

text \<open>\<open>UPDATE users SET balance = ? WHERE user_id = ?\<close>, as issued by the processor.\<close>

definition update_user_balance :: "db \<Rightarrow> string \<Rightarrow> real \<Rightarrow> db" where
  "update_user_balance d uid b =
     d\<lparr>users := map (\<lambda>u. if user_id u = uid then u\<lparr>balance := b\<rparr> else u) (users d)\<rparr>"

text \<open>
  The decimal digits of a natural number and the format \<open>f"TX{n:06d}"\<close>. The row id
  \<open>id\<close> of a transaction is read by none of the modelled code and is left out, and the
  insert is taken to succeed.
\<close>

fun digits :: "nat \<Rightarrow> string" where
  "digits n = (if n < 10 then [char_of (48 + n)]
               else digits (n div 10) @ [char_of (48 + n mod 10)])"

definition format_tx_id :: "nat \<Rightarrow> string" where
  "format_tx_id n = ''TX'' @ replicate (6 - length (digits n)) (CHR ''0'') @ digits n"

definition add_transaction ::
  "int \<Rightarrow> db \<Rightarrow> string \<Rightarrow> string \<Rightarrow> real \<Rightarrow> string \<Rightarrow> string \<Rightarrow> string \<Rightarrow> int \<Rightarrow> real
     \<Rightarrow> string \<times> db" where
  "add_transaction now d src tgt amt cur ty st susp score =
     (let count = length (transactions d);
          tx_id = format_tx_id (count + 1);
          row = \<lparr>transaction_id = tx_id, source_user_id = src, target_user_id = tgt,
                 amount = amt, currency = cur, transaction_type = ty, timestamp = now,
                 tx_status = st, is_suspicious = susp, ai_risk_score = score\<rparr>
      in (tx_id, d\<lparr>transactions := transactions d @ [row]\<rparr>))"

text \<open>
  \<open>WHERE (source_user_id = ? OR target_user_id = ?) AND timestamp >= datetime('now', '-h hours')\<close>.
\<close>

definition get_user_transactions_in_window :: "int \<Rightarrow> db \<Rightarrow> string \<Rightarrow> int \<Rightarrow> tx list" where
  "get_user_transactions_in_window now d uid hours =
     filter (\<lambda>t. (source_user_id t = uid \<or> target_user_id t = uid)
                  \<and> timestamp t \<ge> now - hours * 3600) (transactions d)"

section \<open>Transaction processor (\<open>services/transaction_service.py\<close>)\<close>

text \<open>What \<open>create_transaction\<close> reads from the result of \<open>FraudService.detect_fraud\<close>.\<close>

record fraud_result =
  risk_probability :: real
  primary_flag :: "string option"

datatype error =
    SourceNotFound string
  | TargetNotFound string
  | AccountFrozen
  | InsufficientBalance real
  | UserNotFound string

record tx_result =
  r_transaction_id :: string
  r_status :: string
  r_source_user_id :: string
  r_target_user_id :: string
  r_amount :: real
  r_ai_risk_score :: real
  r_typology :: "string option"
  r_structuring_detected :: bool
  r_account_frozen :: bool
  r_new_balance :: real
  r_message :: string

definition in_structuring_range :: "real \<Rightarrow> bool" where
  "in_structuring_range a = (9000 \<le> a \<and> a \<le> 9999)"

definition detect_structuring :: "int \<Rightarrow> db \<Rightarrow> string \<Rightarrow> real \<Rightarrow> bool" where
  "detect_structuring now d uid current_amount =
     (let recent_txs = get_user_transactions_in_window now d uid 48;
          structuring_count = length (filter (\<lambda>t. in_structuring_range (amount t)) recent_txs);
          structuring_count = (if in_structuring_range current_amount
                               then structuring_count + 1 else structuring_count)
      in structuring_count > 2)"

definition detect_high_velocity :: "int \<Rightarrow> db \<Rightarrow> string \<Rightarrow> bool" where
  "detect_high_velocity now d uid =
     (let recent_txs = get_user_transactions_in_window now d uid 24
      in length recent_txs > 10)"

text \<open>
  The fraud service is injected into the processor (\<open>TransactionService.__init__\<close>), so it
  is an argument here: any function from the ledger and an account id to either an exception
  (\<open>Inl\<close>) or a result. Every \<open>raise ValueError\<close> of the source is an \<open>Inl\<close> branch; the
  \<open>try/except Exception\<close> around the scorer is the \<open>case\<close> on its result.
\<close>

definition create_transaction ::
  "(db \<Rightarrow> string \<Rightarrow> 'e + fraud_result) \<Rightarrow> int \<Rightarrow> db \<Rightarrow> string \<Rightarrow> string \<Rightarrow> real \<Rightarrow> string \<Rightarrow> string
     \<Rightarrow> error + (tx_result \<times> db)" where
  "create_transaction detect_fraud now d src tgt amt cur ty =
     (case get_user_by_id d src of
        None \<Rightarrow> Inl (SourceNotFound src)
      | Some source_user \<Rightarrow>
     (case get_user_by_id d tgt of
        None \<Rightarrow> Inl (TargetNotFound tgt)
      | Some target_user \<Rightarrow>
        if u_status source_user = ''FROZEN'' then Inl AccountFrozen
        else if balance source_user < amt then Inl (InsufficientBalance (balance source_user))
        else
          let (score, typology) =
                (case detect_fraud d src of
                   Inr fraud \<Rightarrow> (risk_probability fraud, primary_flag fraud)
                 | Inl e \<Rightarrow> (risk_score source_user, None));
              structuring_detected = detect_structuring now d src amt;
              high_velocity = detect_high_velocity now d src;
              should_flag = (structuring_detected \<or> high_velocity \<or> in_structuring_range amt
                             \<or> amt > 50000 \<or> score > 0.7);
              susp = (if should_flag then 1 else 0);
              (st, d1) = (if structuring_detected
                          then (''BLOCKED'', update_user_status d src ''FROZEN'')
                          else if should_flag then (''FLAGGED'', d)
                          else (''APPROVED'', d));
              (tx_id, d2) = add_transaction now d1 src tgt amt cur ty st susp score;
              new_source_balance = balance source_user - amt;
              new_target_balance = balance target_user + amt;
              d3 = (if st = ''APPROVED''
                    then update_user_balance (update_user_balance d2 src new_source_balance)
                           tgt new_target_balance
                    else d2)
          in Inr (\<lparr>r_transaction_id = tx_id, r_status = st, r_source_user_id = src,
                    r_target_user_id = tgt, r_amount = amt, r_ai_risk_score = score,
                    r_typology = typology, r_structuring_detected = structuring_detected,
                    r_account_frozen = structuring_detected,
                    r_new_balance = (if st = ''APPROVED'' then new_source_balance
                                     else balance source_user),
                    r_message = (if structuring_detected
                                 then ''Account frozen due to structuring detection''
                                 else if should_flag
                                 then ''Transaction flagged for compliance review''
                                 else ''Transaction approved'')\<rparr>, d3)))"

section \<open>Subgraph extractor (\<open>SQLiteConnector.get_user_subgraph\<close>)\<close>

record link =
  l_source :: string
  l_target :: string
  l_amount :: real
  l_transaction_id :: string
  l_transaction_type :: string

record subgraph =
  nodes :: "user list"
  links :: "link list"

text \<open>
  The neighbour query: the \<open>UNION\<close> of the targets of the transactions leaving the layer
  and the sources of the transactions entering it, without duplicates.
\<close>

definition neighbors :: "tx list \<Rightarrow> string list \<Rightarrow> string list" where
  "neighbors txs layer =
     remdups (map target_user_id (filter (\<lambda>t. source_user_id t \<in> set layer) txs)
            @ map source_user_id (filter (\<lambda>t. target_user_id t \<in> set layer) txs))"

text \<open>
  The loop \<open>for _ in range(depth)\<close>. The Python sets \<open>visited\<close> and \<open>current_layer\<close> are
  duplicate-free lists in insertion order; Python leaves the iteration order of a set open,
  and nothing proved below depends on it.
\<close>

fun expand :: "tx list \<Rightarrow> nat \<Rightarrow> string list \<Rightarrow> string list \<Rightarrow> string list" where
  "expand txs 0 visited current_layer = visited"
| "expand txs (Suc n) visited current_layer =
     (let next_layer = filter (\<lambda>x. x \<notin> set visited) (neighbors txs current_layer)
      in expand txs n (visited @ next_layer) next_layer)"

definition to_link :: "tx \<Rightarrow> link" where
  "to_link t = \<lparr>l_source = source_user_id t, l_target = target_user_id t, l_amount = amount t,
                l_transaction_id = transaction_id t, l_transaction_type = transaction_type t\<rparr>"

definition visited_nodes :: "db \<Rightarrow> string \<Rightarrow> int \<Rightarrow> string list" where
  "visited_nodes d uid depth = expand (transactions d) (nat depth) [uid] [uid]"

definition get_user_subgraph :: "db \<Rightarrow> string \<Rightarrow> int \<Rightarrow> subgraph" where
  "get_user_subgraph d uid depth =
     (let visited = visited_nodes d uid depth
      in \<lparr>nodes = List.map_filter (get_user_by_id d) visited,
          links = map to_link
                    (filter (\<lambda>t. source_user_id t \<in> set visited \<and> target_user_id t \<in> set visited)
                       (transactions d))\<rparr>)"

section \<open>Risk scorer (\<open>services/fraud_service.py\<close>)\<close>

fun max_amount :: "real list \<Rightarrow> real" where
  "max_amount [] = 0"
| "max_amount (a # as) = fold max as a"

definition calculate_risk_score :: "string \<Rightarrow> user \<Rightarrow> subgraph \<Rightarrow> real" where
  "calculate_risk_score uid usr sg =
     (let base_risk = risk_score usr;
          neighbor_risks = map risk_score (filter (\<lambda>n. user_id n \<noteq> uid) (nodes sg));
          avg_neighbor_risk = (if neighbor_risks = [] then 0.5
                               else sum_list neighbor_risks / real (length neighbor_risks));
          user_txs = filter (\<lambda>l. l_source l = uid \<or> l_target l = uid) (links sg);
          tx_count = length user_txs;
          volume_risk = min (real tx_count / 20) 1;
          amounts = map l_amount user_txs;
          high_value_risk = min (max_amount amounts / 100000) 1;
          structuring_count = length (filter in_structuring_range amounts);
          structuring_risk = min (real structuring_count / 3) 1;
          combined_risk = base_risk * 0.3 + avg_neighbor_risk * 0.25 + volume_risk * 0.15
                          + high_value_risk * 0.15 + structuring_risk * 0.15
      in min (max combined_risk 0) 1)"

record patterns =
  smurfing :: bool
  structuring :: bool
  circular_flow :: bool
  high_velocity :: bool

definition adj_targets :: "link list \<Rightarrow> string \<Rightarrow> string list" where
  "adj_targets ls src = remdups (map l_target (filter (\<lambda>l. l_source l = src) ls))"

function has_path :: "link list \<Rightarrow> string \<Rightarrow> string \<Rightarrow> string set \<Rightarrow> int \<Rightarrow> bool" where
  "has_path ls start goal visited depth =
     (if depth > 5 then False
      else if start = goal \<and> depth > 0 then True
      else list_ex (\<lambda>neighbor. (neighbor \<notin> visited \<or> neighbor = goal)
                        \<and> has_path ls neighbor goal (insert neighbor visited) (depth + 1))
             (adj_targets ls start))"
  by pat_completeness auto
termination
  by (relation "measure (\<lambda>(ls, start, goal, visited, depth). nat (6 - depth))") auto

definition detect_patterns :: "string \<Rightarrow> subgraph \<Rightarrow> patterns" where
  "detect_patterns uid sg =
     (let incoming = filter (\<lambda>l. l_target l = uid) (links sg);
          outgoing = filter (\<lambda>l. l_source l = uid) (links sg);
          all_txs = incoming @ outgoing;
          small_incoming = filter (\<lambda>l. l_amount l < 3000) incoming;
          structured = filter (\<lambda>l. in_structuring_range (l_amount l)) all_txs
      in \<lparr>smurfing = (length small_incoming \<ge> 5),
          structuring = (length structured \<ge> 2),
          circular_flow = has_path (links sg) uid uid {} 0,
          high_velocity = (length all_txs \<ge> 10)\<rparr>)"

definition get_primary_flag :: "patterns \<Rightarrow> string option" where
  "get_primary_flag p =
     (if circular_flow p then Some ''Circular Flow Detected''
      else if smurfing p then Some ''Smurfing Detected''
      else if structuring p then Some ''Structuring Detected''
      else if high_velocity p then Some ''High Transaction Velocity''
      else None)"

text \<open>Python's \<open>round(x, 4)\<close>: to the nearest multiple of \<open>1/10000\<close>, a tie to the even one.\<close>

definition round4 :: "real \<Rightarrow> real" where
  "round4 x =
     (let y = x * 10000; f = \<lfloor>y\<rfloor>; r = y - of_int f
      in of_int (if r < 1/2 then f else if r > 1/2 then f + 1
                 else if even f then f else f + 1) / 10000)"

text \<open>
  \<open>detect_fraud\<close>, with the two fields of its result that the transaction processor reads.
\<close>

definition detect_fraud :: "db \<Rightarrow> string \<Rightarrow> error + fraud_result" where
  "detect_fraud d uid =
     (case get_user_by_id d uid of
        None \<Rightarrow> Inl (UserNotFound uid)
      | Some usr \<Rightarrow>
          let sg = get_user_subgraph d uid 2;
              score = calculate_risk_score uid usr sg;
              pats = detect_patterns uid sg
          in Inr \<lparr>risk_probability = round4 score, primary_flag = get_primary_flag pats\<rparr>)"

section \<open>Ring detector (\<open>SQLiteConnector.find_laundering_rings\<close>)\<close>

record edge =
  e_target :: string
  e_amount :: real

record ring_node =
  rn_user_id :: string
  rn_name :: string

text \<open>A ring as \<open>dfs\<close> records it; its third entry, \<open>transactions\<close>, is always the empty list.\<close>

record ring =
  path :: "ring_node list"
  ring_length :: nat

text \<open>
  The adjacency dictionary keeps its keys in insertion order, so it is an association list;
  \<open>adj_insert\<close> is the body of the loop that builds it.
\<close>

type_synonym adjacency = "(string \<times> edge list) list"

definition adj_insert :: "tx \<Rightarrow> adjacency \<Rightarrow> adjacency" where
  "adj_insert t adj =
     (let src = source_user_id t;
          e = \<lparr>e_target = target_user_id t, e_amount = amount t\<rparr>
      in if src \<in> fst ` set adj
         then map (\<lambda>(k, es). if k = src then (k, es @ [e]) else (k, es)) adj
         else adj @ [(src, [e])])"

definition build_adj :: "tx list \<Rightarrow> adjacency" where
  "build_adj txs = fold adj_insert txs []"

definition adj_get :: "adjacency \<Rightarrow> string \<Rightarrow> edge list" where
  "adj_get adj k = (case map_of adj k of None \<Rightarrow> [] | Some es \<Rightarrow> es)"

text \<open>\<open>user_names.get(uid, uid)\<close> on the dictionary built from the rows of \<open>users\<close>.\<close>

definition user_name_of :: "db \<Rightarrow> string \<Rightarrow> string" where
  "user_name_of d uid =
     (case map_of (rev (map (\<lambda>u. (user_id u, name u)) (users d))) uid of
        None \<Rightarrow> uid | Some n \<Rightarrow> n)"

definition make_ring :: "db \<Rightarrow> string list \<Rightarrow> ring" where
  "make_ring d p =
     \<lparr>path = map (\<lambda>uid. \<lparr>rn_user_id = uid, rn_name = user_name_of d uid\<rparr>) p,
      ring_length = length p\<rparr>"

text \<open>
  The nested \<open>dfs\<close>. It appends to the list \<open>rings\<close> of the enclosing call; here it returns
  the rings it appends, in the order in which it appends them.
\<close>

function dfs ::
  "int \<Rightarrow> adjacency \<Rightarrow> db \<Rightarrow> string \<Rightarrow> string \<Rightarrow> string list \<Rightarrow> string set \<Rightarrow> int \<Rightarrow> ring list" where
  "dfs max_depth adj d start current p visited depth =
     (if depth > max_depth then []
      else concat (map (\<lambda>e. let neighbor = e_target e
                             in if neighbor = start \<and> length p \<ge> 3 then [make_ring d p]
                                else if neighbor \<notin> visited
                                then dfs max_depth adj d start neighbor (p @ [neighbor])
                                       (insert neighbor visited) (depth + 1)
                                else [])
                     (adj_get adj current)))"
  by pat_completeness auto
termination
  by (relation "measure (\<lambda>(max_depth, adj, d, start, current, p, visited, depth).
                   nat (max_depth + 1 - depth))") auto

text \<open>The list \<open>rings\<close> after the loop over the first 50 keys of the adjacency dictionary.\<close>

definition all_rings :: "db \<Rightarrow> int \<Rightarrow> ring list" where
  "all_rings d max_depth =
     (let adj = build_adj (transactions d)
      in concat (map (\<lambda>start_node. dfs max_depth adj d start_node start_node [start_node]
                                       {start_node} 0)
                   (take 50 (map fst adj))))"

definition ring_ids :: "ring \<Rightarrow> string list" where
  "ring_ids r = map rn_user_id (path r)"

text \<open>The loop that removes duplicates: its state is the pair \<open>(seen, unique_rings)\<close>.\<close>

definition dedup_step :: "ring \<Rightarrow> string list set \<times> ring list \<Rightarrow> string list set \<times> ring list" where
  "dedup_step r st =
     (let path_ids = sort (ring_ids r)
      in if path_ids \<notin> fst st then (insert path_ids (fst st), snd st @ [r]) else st)"

definition unique_rings :: "ring list \<Rightarrow> ring list" where
  "unique_rings rs = snd (fold dedup_step rs ({}, []))"

definition find_laundering_rings :: "db \<Rightarrow> int \<Rightarrow> ring list" where
  "find_laundering_rings d max_depth = take 20 (unique_rings (all_rings d max_depth))"

section \<open>Routes (\<open>routes/fraud_detection.py\<close>)\<close>

text \<open>
  A handler takes the ledger and returns its response, or the HTTP error it raises, together
  with the ledger it leaves behind. \<open>RequestValidationError\<close> is the rejection of a query
  parameter outside the bounds declared with \<open>Query(..., ge=, le=)\<close>, which happens before
  the handler body runs.
\<close>

datatype http_error = HTTPException nat string | RequestValidationError

record appeal_response =
  resp_status :: string
  resp_user_id :: string
  resp_message :: string

definition get_user_network :: "db \<Rightarrow> string \<Rightarrow> int \<Rightarrow> (http_error + subgraph) \<times> db" where
  "get_user_network d uid depth =
     (if depth < 1 \<or> depth > 3 then (Inl RequestValidationError, d)
      else case get_user_by_id d uid of
             None \<Rightarrow> (Inl (HTTPException 404 ''User not found''), d)
           | Some usr \<Rightarrow> (Inr (get_user_subgraph d uid depth), d))"

definition submit_appeal :: "int \<Rightarrow> db \<Rightarrow> string \<Rightarrow> string \<Rightarrow> (http_error + string) \<times> db" where
  "submit_appeal now d uid just =
     (case get_user_by_id d uid of
        None \<Rightarrow> (Inl (HTTPException 404 ''User not found''), d)
      | Some usr \<Rightarrow>
          (Inr ''PENDING'',
           d\<lparr>appeals := appeals d @
                [\<lparr>a_user_id = uid, justification = just, a_status = ''PENDING'',
                  created_at = now, reviewed_at = None, reviewed_by = None\<rparr>]\<rparr>))"

text \<open>\<open>UPDATE appeals SET status = ?, reviewed_at = CURRENT_TIMESTAMP WHERE user_id = ? AND status = 'PENDING'\<close>.\<close>

definition resolve_pending :: "int \<Rightarrow> string \<Rightarrow> string \<Rightarrow> appeal list \<Rightarrow> appeal list" where
  "resolve_pending now uid outcome as =
     map (\<lambda>a. if a_user_id a = uid \<and> a_status a = ''PENDING''
               then a\<lparr>a_status := outcome, reviewed_at := Some now\<rparr> else a) as"

text \<open>
  \<open>update_user_status\<close> opens a connection of its own, writes and commits. When the caller
  holds another connection with an uncommitted write, SQLite keeps the write lock for that
  connection and refuses the second writer: \<open>sqlite3.OperationalError\<close>, "database is
  locked". The first argument says whether such a write is open.
\<close>

datatype db_error = OperationalError string

definition update_user_status_during :: "bool \<Rightarrow> db \<Rightarrow> string \<Rightarrow> string \<Rightarrow> db_error + db" where
  "update_user_status_during uncommitted_write d uid s =
     (if uncommitted_write then Inl (OperationalError ''database is locked'')
      else Inr (update_user_status d uid s))"

text \<open>
  \<open>approve_appeal\<close> executes its \<open>UPDATE appeals\<close> on \<open>conn\<close> and, before \<open>conn.commit()\<close>,
  calls \<open>db.update_user_status\<close>. \<open>pending\<close> is the uncommitted content of \<open>appeals\<close>; it
  reaches the ledger only with the commit. The exception of the second writer is caught by
  \<open>except Exception\<close> and answered with status 500 and its message, and \<open>conn\<close> is never
  committed.
\<close>

definition approve_appeal :: "int \<Rightarrow> db \<Rightarrow> string \<Rightarrow> (http_error + appeal_response) \<times> db" where
  "approve_appeal now d uid =
     (case get_user_by_id d uid of
        None \<Rightarrow> (Inl (HTTPException 404 ''User not found''), d)
      | Some usr \<Rightarrow>
          let pending = resolve_pending now uid ''APPROVED'' (appeals d)
          in case update_user_status_during True d uid ''ACTIVE'' of
               Inl (OperationalError msg) \<Rightarrow> (Inl (HTTPException 500 msg), d)
             | Inr d1 \<Rightarrow>
                 (Inr \<lparr>resp_status = ''appeal_approved'', resp_user_id = uid,
                        resp_message = ''Appeal approved. User account unfrozen.''\<rparr>,
                  d1\<lparr>appeals := pending\<rparr>))"

definition reject_appeal :: "int \<Rightarrow> db \<Rightarrow> string \<Rightarrow> (http_error + appeal_response) \<times> db" where
  "reject_appeal now d uid =
     (case get_user_by_id d uid of
        None \<Rightarrow> (Inl (HTTPException 404 ''User not found''), d)
      | Some usr \<Rightarrow>
          let d1 = d\<lparr>appeals := resolve_pending now uid ''REJECTED'' (appeals d)\<rparr>
          in (Inr \<lparr>resp_status = ''appeal_rejected'', resp_user_id = uid,
                    resp_message = ''Appeal rejected. User remains frozen.''\<rparr>, d1))"

section \<open>Auxiliary definitions for the statements\<close>

text \<open>The risk score and the typology that the processor takes from the scorer, or the fallback.\<close>

definition scorer_outcome :: "(db \<Rightarrow> string \<Rightarrow> 'e + fraud_result) \<Rightarrow> db \<Rightarrow> string \<Rightarrow> user \<Rightarrow> real \<times> string option" where
  "scorer_outcome F d src su = (case F d src of
                   Inr fraud \<Rightarrow> (risk_probability fraud, primary_flag fraud)
                 | Inl e \<Rightarrow> (risk_score su, None))"

text \<open>Observations of an outcome of \<open>create_transaction\<close>.\<close>

definition outcome_status :: "error + (tx_result \<times> db) \<Rightarrow> string option" where
  "outcome_status r = (case r of Inl e \<Rightarrow> None | Inr (res, d') \<Rightarrow> Some (r_status res))"


definition balance_after :: "error + (tx_result \<times> db) \<Rightarrow> string \<Rightarrow> real option" where
  "balance_after r uid =
     (case r of Inl e \<Rightarrow> None | Inr (res, d') \<Rightarrow> map_option balance (get_user_by_id d' uid))"

subsection \<open>Example ledgers\<close>

definition ex_user :: "string \<Rightarrow> real \<Rightarrow> real \<Rightarrow> string \<Rightarrow> user" where
  "ex_user uid risk bal st =
     \<lparr>user_id = uid, name = uid, risk_score = risk, account_age_days = 400, u_status = st, balance = bal\<rparr>"

definition ex_tx :: "string \<Rightarrow> string \<Rightarrow> real \<Rightarrow> int \<Rightarrow> tx" where
  "ex_tx src tgt amt ts =
     \<lparr>transaction_id = ''TX'', source_user_id = src, target_user_id = tgt, amount = amt,
      currency = ''USD'', transaction_type = ''transfer'', timestamp = ts,
      tx_status = ''FLAGGED'', is_suspicious = 1, ai_risk_score = 0.2\<rparr>"

definition quiet_ledger :: db where
  "quiet_ledger = \<lparr>users = [ex_user ''U1'' 0.1 1000 ''ACTIVE'', ex_user ''U2'' 0.2 500 ''ACTIVE''],
                    transactions = [], appeals = []\<rparr>"




definition chain_ledger :: db where
  "chain_ledger =
     \<lparr>users = [ex_user ''A'' 0.2 1000 ''ACTIVE'', ex_user ''B'' 0.4 1000 ''ACTIVE'',
               ex_user ''C'' 0.8 1000 ''ACTIVE'', ex_user ''D'' 0.6 1000 ''ACTIVE''],
      transactions = [ex_tx ''A'' ''B'' 9500 100, ex_tx ''B'' ''C'' 200 200,
                      ex_tx ''C'' ''D'' 60000 300, ex_tx ''B'' ''A'' 20000 400],
      appeals = []\<rparr>"

subsection \<open>The risk blend in the words of the specification\<close>

text \<open>
  The factors of the blend as the specification describes them, over the ledger: the
  transactions incident to the account, the mean stored risk of the other accounts of its
  2-hop subgraph, and the three normalised counts.
\<close>

definition incident_transactions :: "db \<Rightarrow> string \<Rightarrow> tx list" where
  "incident_transactions d uid =
     filter (\<lambda>t. source_user_id t = uid \<or> target_user_id t = uid) (transactions d)"

definition spec_avg_neighbor_risk :: "db \<Rightarrow> string \<Rightarrow> real" where
  "spec_avg_neighbor_risk d uid =
     (let others = filter (\<lambda>n. user_id n \<noteq> uid) (nodes (get_user_subgraph d uid 2))
      in if others = [] then 0.5
         else sum_list (map risk_score others) / real (length others))"

definition spec_volume_risk :: "db \<Rightarrow> string \<Rightarrow> real" where
  "spec_volume_risk d uid = min (real (length (incident_transactions d uid)) / 20) 1"

definition spec_high_value_risk :: "db \<Rightarrow> string \<Rightarrow> real" where
  "spec_high_value_risk d uid =
     (let amounts = map amount (incident_transactions d uid)
      in min ((if amounts = [] then 0 else Max (set amounts)) / 100000) 1)"

definition spec_structuring_risk :: "db \<Rightarrow> string \<Rightarrow> real" where
  "spec_structuring_risk d uid =
     min (real (length (filter (\<lambda>t. 9000 \<le> amount t \<and> amount t \<le> 9999)
                          (incident_transactions d uid))) / 3) 1"

subsection \<open>Observations of accounts and appeals\<close>

definition account_status :: "db \<Rightarrow> string \<Rightarrow> string option" where
  "account_status d uid = map_option u_status (get_user_by_id d uid)"

definition appeal_outcomes :: "db \<Rightarrow> string \<Rightarrow> (string \<times> int option) list" where
  "appeal_outcomes d uid =
     map (\<lambda>a. (a_status a, reviewed_at a)) (filter (\<lambda>a. a_user_id a = uid) (appeals d))"

definition appeal_ledger :: db where
  "appeal_ledger =
     \<lparr>users = [ex_user ''D'' 0.3 1000 ''FROZEN'', ex_user ''E'' 0.2 500 ''ACTIVE''],
      transactions = [],
      appeals = [\<lparr>a_user_id = ''D'', justification = ''please review'', a_status = ''PENDING'',
                  created_at = 1000, reviewed_at = None, reviewed_by = None\<rparr>]\<rparr>"

subsection \<open>Ring deduplication in the words of the specification\<close>

text \<open>
  A discovered ring is kept when no ring discovered before it has the same set of account
  ids; \<open>spec_first_rings\<close> lists the kept rings in discovery order.
\<close>

definition first_of_its_set :: "ring list \<Rightarrow> nat \<Rightarrow> bool" where
  "first_of_its_set rs j =
     list_all (\<lambda>k. set (ring_ids (rs ! k)) \<noteq> set (ring_ids (rs ! j))) [0..<j]"

definition spec_first_rings :: "ring list \<Rightarrow> ring list" where
  "spec_first_rings rs = map (nth rs) (filter (first_of_its_set rs) [0..<length rs])"

definition well_formed_ring :: "ring \<Rightarrow> bool" where
  "well_formed_ring r =
     (3 \<le> length (path r) \<and> distinct (ring_ids r) \<and> ring_length r = length (path r))"

definition ring_ledger :: db where
  "ring_ledger =
     \<lparr>users = [ex_user ''A'' 0.2 1000 ''ACTIVE'', ex_user ''B'' 0.4 1000 ''ACTIVE'',
               ex_user ''C'' 0.8 1000 ''ACTIVE''],
      transactions = [ex_tx ''A'' ''B'' 100 100, ex_tx ''B'' ''C'' 200 200,
                      ex_tx ''C'' ''A'' 300 300, ex_tx ''B'' ''A'' 400 400],
      appeals = []\<rparr>"

section \<open>Properties of the ledger store\<close>

lemma find_map_key:
  assumes "\<And>u. key (f u) = key u"
  shows "find (\<lambda>u. key u = k) (map f xs) = map_option f (find (\<lambda>u. key u = k) xs)"
  by (induction xs) (simp_all add: assms)

lemma get_user_update_status:
  "get_user_by_id (update_user_status d uid s) x =
     map_option (\<lambda>u. if user_id u = uid then u\<lparr>u_status := s\<rparr> else u) (get_user_by_id d x)"
  unfolding get_user_by_id_def update_user_status_def
  by (simp add: find_map_key [where key = user_id])

lemma get_user_update_balance:
  "get_user_by_id (update_user_balance d uid b) x =
     map_option (\<lambda>u. if user_id u = uid then u\<lparr>balance := b\<rparr> else u) (get_user_by_id d x)"
  unfolding get_user_by_id_def update_user_balance_def
  by (simp add: find_map_key [where key = user_id])

lemma get_user_add_transaction:
  "get_user_by_id (snd (add_transaction now d src tgt amt cur ty st susp score)) x = get_user_by_id d x"
  by (simp add: add_transaction_def get_user_by_id_def Let_def)

lemma get_user_id: "get_user_by_id d x = Some u \<Longrightarrow> user_id u = x"
  unfolding get_user_by_id_def by (induction "users d" arbitrary: d) (auto dest: find_Some_iff[THEN iffD1])

section \<open>Properties of the transaction processor\<close>

lemma ct_blocked:
  assumes "get_user_by_id d src = Some su" and "get_user_by_id d tgt = Some tu"
    and "u_status su \<noteq> ''FROZEN''" and "\<not> balance su < amt"
    and "detect_structuring now d src amt"
  shows "\<exists>res. create_transaction F now d src tgt amt cur ty =
           Inr (res, snd (add_transaction now (update_user_status d src ''FROZEN'') src tgt amt cur ty
                        ''BLOCKED'' 1 (fst (scorer_outcome F d src su))))
         \<and> r_status res = ''BLOCKED'' \<and> r_ai_risk_score res = fst (scorer_outcome F d src su)"
  using assms
  by (simp add: create_transaction_def scorer_outcome_def Let_def add_transaction_def split: prod.splits sum.splits)

lemma ct_flagged:
  assumes "get_user_by_id d src = Some su" and "get_user_by_id d tgt = Some tu"
    and "u_status su \<noteq> ''FROZEN''" and "\<not> balance su < amt"
    and "\<not> detect_structuring now d src amt"
    and "detect_high_velocity now d src \<or> in_structuring_range amt \<or> amt > 50000
         \<or> fst (scorer_outcome F d src su) > 0.7"
  shows "\<exists>res. create_transaction F now d src tgt amt cur ty =
           Inr (res, snd (add_transaction now d src tgt amt cur ty
                        ''FLAGGED'' 1 (fst (scorer_outcome F d src su))))
         \<and> r_status res = ''FLAGGED'' \<and> r_ai_risk_score res = fst (scorer_outcome F d src su)"
  using assms
  by (auto simp add: create_transaction_def scorer_outcome_def Let_def add_transaction_def split: prod.splits sum.splits)

lemma ct_approved:
  assumes "get_user_by_id d src = Some su" and "get_user_by_id d tgt = Some tu"
    and "u_status su \<noteq> ''FROZEN''" and "\<not> balance su < amt"
    and "\<not> detect_structuring now d src amt"
    and "\<not> (detect_high_velocity now d src \<or> in_structuring_range amt \<or> amt > 50000
         \<or> fst (scorer_outcome F d src su) > 0.7)"
  shows "\<exists>res. create_transaction F now d src tgt amt cur ty =
           Inr (res, update_user_balance (update_user_balance
                  (snd (add_transaction now d src tgt amt cur ty
                        ''APPROVED'' 0 (fst (scorer_outcome F d src su))))
                  src (balance su - amt)) tgt (balance tu + amt))
         \<and> r_status res = ''APPROVED'' \<and> r_ai_risk_score res = fst (scorer_outcome F d src su)"
  using assms
  by (auto simp add: create_transaction_def scorer_outcome_def Let_def add_transaction_def split: prod.splits sum.splits)

lemma fst_scorer_outcome:
  "fst (scorer_outcome F d src su) =
     (case F d src of Inr fraud \<Rightarrow> risk_probability fraud | Inl e \<Rightarrow> risk_score su)"
  by (simp add: scorer_outcome_def split: sum.splits)

lemma frozen_after_blocked:
  assumes "get_user_by_id d src = Some su"
  shows "map_option u_status (get_user_by_id
           (snd (add_transaction now (update_user_status d src ''FROZEN'') src tgt amt cur ty st susp score)) src)
         = Some ''FROZEN''"
  using assms get_user_id [OF assms]
  by (simp add: get_user_add_transaction get_user_update_status)

lemma add_transaction_rows:
  "\<exists>row. transactions (snd (add_transaction now d src tgt amt cur ty st susp score)) = transactions d @ [row]
     \<and> source_user_id row = src \<and> target_user_id row = tgt \<and> amount row = amt
     \<and> tx_status row = st \<and> is_suspicious row = susp \<and> ai_risk_score row = score \<and> timestamp row = now"
  by (simp add: add_transaction_def Let_def)

lemma transactions_update_status [simp]:
  "transactions (update_user_status d uid s) = transactions d"
  by (simp add: update_user_status_def)

lemma transactions_update_balance [simp]:
  "transactions (update_user_balance d uid b) = transactions d"
  by (simp add: update_user_balance_def)



lemma users_add_transaction [simp]:
  "users (snd (add_transaction now d src tgt amt cur ty st susp score)) = users d"
  by (simp add: add_transaction_def Let_def)

lemma balances_update_status [simp]:
  "map balance (users (update_user_status d uid s)) = map balance (users d)"
  by (simp add: update_user_status_def comp_def cong: map_cong)

lemma get_user_balance_other:
  assumes "x \<noteq> uid"
  shows "get_user_by_id (update_user_balance d uid b) x = get_user_by_id d x"
proof (cases "get_user_by_id d x")
  case None
  then show ?thesis by (simp add: get_user_update_balance)
next
  case (Some u)
  with get_user_id [OF Some] assms show ?thesis
    by (simp add: get_user_update_balance)
qed

lemma get_user_balance_same:
  assumes "get_user_by_id d uid = Some u"
  shows "get_user_by_id (update_user_balance d uid b) uid = Some (u\<lparr>balance := b\<rparr>)"
  using assms get_user_id [OF assms] by (simp add: get_user_update_balance)

lemma balance_conservation_distinct:
  assumes "get_user_by_id d src = Some su" and "get_user_by_id d tgt = Some tu"
    and "u_status su \<noteq> ''FROZEN''" and "\<not> balance su < amt"
    and "src \<noteq> tgt"
    and "create_transaction F now d src tgt amt cur ty = Inr (res, d')"
  shows "r_status res = ''APPROVED'' \<longrightarrow>
           map_option balance (get_user_by_id d' src) = Some (balance su - amt)
         \<and> map_option balance (get_user_by_id d' tgt) = Some (balance tu + amt)
         \<and> (\<forall>x. x \<noteq> src \<and> x \<noteq> tgt \<longrightarrow> get_user_by_id d' x = get_user_by_id d x)"
    and "r_status res \<noteq> ''APPROVED'' \<longrightarrow> map balance (users d') = map balance (users d)"
proof -
  note chk = assms(1-4)
  let ?score = "fst (scorer_outcome F d src su)"
  let ?other = "detect_high_velocity now d src \<or> in_structuring_range amt \<or> amt > 50000
                \<or> ?score > 0.7"
  have ids: "user_id su = src" "user_id tu = tgt"
    using get_user_id assms(1,2) by blast+
  consider (blocked) "detect_structuring now d src amt"
    | (flagged) "\<not> detect_structuring now d src amt" "?other"
    | (approved) "\<not> detect_structuring now d src amt" "\<not> ?other"
    by blast
  then have "(r_status res = ''APPROVED'' \<longrightarrow>
           map_option balance (get_user_by_id d' src) = Some (balance su - amt)
         \<and> map_option balance (get_user_by_id d' tgt) = Some (balance tu + amt)
         \<and> (\<forall>x. x \<noteq> src \<and> x \<noteq> tgt \<longrightarrow> get_user_by_id d' x = get_user_by_id d x))
      \<and> (r_status res \<noteq> ''APPROVED'' \<longrightarrow> map balance (users d') = map balance (users d))"
  proof cases
    case blocked
    from ct_blocked [where F = F and cur = cur and ty = ty, OF chk blocked] assms(6)
    show ?thesis by auto
  next
    case flagged
    from ct_flagged [where F = F and cur = cur and ty = ty, OF chk flagged] assms(6)
    show ?thesis by auto
  next
    case approved
    from ct_approved [where F = F and cur = cur and ty = ty, OF chk approved] assms(6)
    have d': "d' = update_user_balance (update_user_balance
                  (snd (add_transaction now d src tgt amt cur ty ''APPROVED'' 0 ?score))
                  src (balance su - amt)) tgt (balance tu + amt)"
      and st: "r_status res = ''APPROVED''"
      by auto
    show ?thesis
      using st assms(1,2,5) ids
      by (simp add: d' get_user_balance_other get_user_balance_same get_user_add_transaction)
  qed
  then show "r_status res = ''APPROVED'' \<longrightarrow>
           map_option balance (get_user_by_id d' src) = Some (balance su - amt)
         \<and> map_option balance (get_user_by_id d' tgt) = Some (balance tu + amt)
         \<and> (\<forall>x. x \<noteq> src \<and> x \<noteq> tgt \<longrightarrow> get_user_by_id d' x = get_user_by_id d x)"
    and "r_status res \<noteq> ''APPROVED'' \<longrightarrow> map balance (users d') = map balance (users d)"
    by blast+
qed



text \<open>
  Claim C1. A submission that passes the existence, frozen-source and balance checks is
  processed: the risk score is the scorer's, or the stored risk when the scorer raises;
  \<open>should_flag\<close> is the disjunction of structuring, high velocity, an amount in
  \<open>[9000, 9999]\<close>, an amount above 50000 and a risk score above 0.7; the status is BLOCKED
  when structuring is detected (and the source account is then FROZEN), else FLAGGED when
  \<open>should_flag\<close> holds, else APPROVED; and the row appended to the ledger carries that status
  and the suspicious flag 1 exactly when \<open>should_flag\<close> holds.
\<close>

theorem status_assignment:
  assumes "get_user_by_id d src = Some su" and "get_user_by_id d tgt = Some tu"
    and "u_status su \<noteq> ''FROZEN''" and "\<not> balance su < amt"
  shows "\<exists>res d'. create_transaction F now d src tgt amt cur ty = Inr (res, d') \<and>
     r_ai_risk_score res = (case F d src of Inr fraud \<Rightarrow> risk_probability fraud
                            | Inl e \<Rightarrow> risk_score su) \<and>
     (let structuring_detected = detect_structuring now d src amt;
          should_flag = (structuring_detected \<or> detect_high_velocity now d src
                         \<or> (9000 \<le> amt \<and> amt \<le> 9999) \<or> amt > 50000 \<or> r_ai_risk_score res > 0.7)
      in r_status res = (if structuring_detected then ''BLOCKED''
                         else if should_flag then ''FLAGGED'' else ''APPROVED'')
       \<and> (structuring_detected \<longrightarrow> map_option u_status (get_user_by_id d' src) = Some ''FROZEN'')
       \<and> (\<exists>row. transactions d' = transactions d @ [row]
              \<and> source_user_id row = src \<and> target_user_id row = tgt \<and> amount row = amt
              \<and> tx_status row = r_status res
              \<and> ai_risk_score row = r_ai_risk_score res
              \<and> is_suspicious row = (if should_flag then 1 else 0)))"
proof -
  let ?score = "fst (scorer_outcome F d src su)"
  let ?other = "detect_high_velocity now d src \<or> in_structuring_range amt \<or> amt > 50000 \<or> ?score > 0.7"
  consider (blocked) "detect_structuring now d src amt"
    | (flagged) "\<not> detect_structuring now d src amt" "?other"
    | (approved) "\<not> detect_structuring now d src amt" "\<not> ?other"
    by blast
  then show ?thesis
  proof cases
    case blocked
    from ct_blocked [where F = F and cur = cur and ty = ty, OF assms blocked] obtain res where
      res: "create_transaction F now d src tgt amt cur ty =
              Inr (res, snd (add_transaction now (update_user_status d src ''FROZEN'') src tgt amt cur ty
                        ''BLOCKED'' 1 ?score))"
        "r_status res = ''BLOCKED''" "r_ai_risk_score res = ?score"
      by blast
    from add_transaction_rows [of now "update_user_status d src ''FROZEN''" src tgt amt cur ty "''BLOCKED''" 1 ?score]
    obtain row where row:
      "transactions (snd (add_transaction now (update_user_status d src ''FROZEN'') src tgt amt cur ty
                        ''BLOCKED'' 1 ?score)) = transactions d @ [row]"
      "source_user_id row = src" "target_user_id row = tgt" "amount row = amt"
      "tx_status row = ''BLOCKED''" "is_suspicious row = 1" "ai_risk_score row = ?score"
      by auto
    show ?thesis
      using res row blocked frozen_after_blocked [OF assms(1)]
      by (simp add: Let_def fst_scorer_outcome)
  next
    case flagged
    from ct_flagged [where F = F and cur = cur and ty = ty, OF assms flagged] obtain res where
      res: "create_transaction F now d src tgt amt cur ty =
              Inr (res, snd (add_transaction now d src tgt amt cur ty ''FLAGGED'' 1 ?score))"
        "r_status res = ''FLAGGED''" "r_ai_risk_score res = ?score"
      by blast
    from add_transaction_rows [of now d src tgt amt cur ty "''FLAGGED''" 1 ?score]
    obtain row where row:
      "transactions (snd (add_transaction now d src tgt amt cur ty ''FLAGGED'' 1 ?score)) = transactions d @ [row]"
      "source_user_id row = src" "target_user_id row = tgt" "amount row = amt"
      "tx_status row = ''FLAGGED''" "is_suspicious row = 1" "ai_risk_score row = ?score"
      by auto
    show ?thesis
      using res row flagged by (auto simp add: Let_def in_structuring_range_def fst_scorer_outcome)
  next
    case approved
    from ct_approved [where F = F and cur = cur and ty = ty, OF assms approved] obtain res where
      res: "create_transaction F now d src tgt amt cur ty =
              Inr (res, update_user_balance (update_user_balance
                  (snd (add_transaction now d src tgt amt cur ty ''APPROVED'' 0 ?score))
                  src (balance su - amt)) tgt (balance tu + amt))"
        "r_status res = ''APPROVED''" "r_ai_risk_score res = ?score"
      by blast
    from add_transaction_rows [of now d src tgt amt cur ty "''APPROVED''" 0 ?score]
    obtain row where row:
      "transactions (snd (add_transaction now d src tgt amt cur ty ''APPROVED'' 0 ?score)) = transactions d @ [row]"
      "source_user_id row = src" "target_user_id row = tgt" "amount row = amt"
      "tx_status row = ''APPROVED''" "is_suspicious row = 0" "ai_risk_score row = ?score"
      by auto
    show ?thesis
      using res row approved by (auto simp add: Let_def in_structuring_range_def fst_scorer_outcome)
  qed
qed

text \<open>The theorem at a transfer of 50 between two quiet accounts, which is APPROVED.\<close>

theorem status_assignment_witness:
  "get_user_by_id quiet_ledger ''U1'' = Some (ex_user ''U1'' 0.1 1000 ''ACTIVE'')
   \<and> get_user_by_id quiet_ledger ''U2'' = Some (ex_user ''U2'' 0.2 500 ''ACTIVE'')
   \<and> u_status (ex_user ''U1'' 0.1 1000 ''ACTIVE'') \<noteq> ''FROZEN''
   \<and> \<not> balance (ex_user ''U1'' 0.1 1000 ''ACTIVE'') < 50
   \<and> outcome_status (create_transaction detect_fraud 200000 quiet_ledger ''U1'' ''U2'' 50
         ''USD'' ''transfer'') = Some ''APPROVED''"
proof -
  have h1: "get_user_by_id quiet_ledger ''U1'' = Some (ex_user ''U1'' 0.1 1000 ''ACTIVE'')"
    by code_simp
  have h2: "get_user_by_id quiet_ledger ''U2'' = Some (ex_user ''U2'' 0.2 500 ''ACTIVE'')"
    by code_simp
  have h3: "u_status (ex_user ''U1'' 0.1 1000 ''ACTIVE'') \<noteq> ''FROZEN''"
    by (simp add: ex_user_def)
  have h4: "\<not> balance (ex_user ''U1'' 0.1 1000 ''ACTIVE'') < 50"
    by (simp add: ex_user_def)
  have e1: "\<not> detect_structuring 200000 quiet_ledger ''U1'' 50"
    by code_simp
  have e2: "\<not> detect_high_velocity 200000 quiet_ledger ''U1''"
    by code_simp
  have e3: "detect_fraud quiet_ledger ''U1'' = Inr \<lparr>risk_probability = 0.155, primary_flag = None\<rparr>"
    by code_simp
  show ?thesis
    using status_assignment [OF h1 h2 h3 h4, of detect_fraud 200000 "''USD''" "''transfer''"] h1 h2 h3 h4 e1 e2 e3
    by (auto simp add: Let_def outcome_status_def)
qed





text \<open>
  Claim C3. An APPROVED transaction of amount A from X to Y lowers the balance of X by A,
  raises the balance of Y by A and changes no other balance, and a transaction that is not
  APPROVED changes no balance: \<open>balance_conservation_distinct\<close> above proves this of every
  submission with X and Y different. The processor computes both new balances from the
  rows it read before the updates, so when X and Y are the same account the second update
  overwrites the first: a transfer of 50 from an account holding 1000 to itself is APPROVED
  and leaves it holding 1050.
\<close>

theorem self_transfer_credits_source:
  "outcome_status (create_transaction detect_fraud 200000 quiet_ledger ''U1'' ''U1'' 50
       ''USD'' ''transfer'') = Some ''APPROVED''
   \<and> map_option balance (get_user_by_id quiet_ledger ''U1'') = Some 1000
   \<and> balance_after (create_transaction detect_fraud 200000 quiet_ledger ''U1'' ''U1'' 50
       ''USD'' ''transfer'') ''U1'' = Some 1050"
  by code_simp

text \<open>
  Claim C4. When a submission passes the existence, frozen-source and balance checks and
  the scorer raises, whatever the exception, the risk score is the stored risk of the source
  account, the call returns a result and no error, the status is one of BLOCKED, FLAGGED
  and APPROVED, and the row appended to the ledger carries that status and that score.
\<close>

theorem scorer_failure_fallback:
  assumes "get_user_by_id d src = Some su" and "get_user_by_id d tgt = Some tu"
    and "u_status su \<noteq> ''FROZEN''" and "\<not> balance su < amt"
    and "F d src = Inl e"
  shows "\<exists>res d'. create_transaction F now d src tgt amt cur ty = Inr (res, d')
           \<and> r_ai_risk_score res = risk_score su
           \<and> r_status res \<in> {''BLOCKED'', ''FLAGGED'', ''APPROVED''}
           \<and> (\<exists>row. transactions d' = transactions d @ [row]
                  \<and> tx_status row = r_status res \<and> ai_risk_score row = risk_score su)"
proof -
  have sc: "fst (scorer_outcome F d src su) = risk_score su"
    using assms(5) by (simp add: scorer_outcome_def)
  let ?other = "detect_high_velocity now d src \<or> in_structuring_range amt \<or> amt > 50000
                \<or> fst (scorer_outcome F d src su) > 0.7"
  note chk = assms(1-4)
  consider (blocked) "detect_structuring now d src amt"
    | (flagged) "\<not> detect_structuring now d src amt" "?other"
    | (approved) "\<not> detect_structuring now d src amt" "\<not> ?other"
    by blast
  then show ?thesis
  proof cases
    case blocked
    from ct_blocked [where F = F and cur = cur and ty = ty, OF chk blocked]
      add_transaction_rows [of now "update_user_status d src ''FROZEN''" src tgt amt cur ty
        "''BLOCKED''" 1 "fst (scorer_outcome F d src su)"]
    show ?thesis unfolding sc by auto
  next
    case flagged
    from ct_flagged [where F = F and cur = cur and ty = ty, OF chk flagged]
      add_transaction_rows [of now d src tgt amt cur ty "''FLAGGED''" 1
        "fst (scorer_outcome F d src su)"]
    show ?thesis unfolding sc by auto
  next
    case approved
    from ct_approved [where F = F and cur = cur and ty = ty, OF chk approved]
      add_transaction_rows [of now d src tgt amt cur ty "''APPROVED''" 0
        "fst (scorer_outcome F d src su)"]
    show ?thesis unfolding sc by auto
  qed
qed

text \<open>The theorem at a scorer that always raises.\<close>

theorem scorer_failure_fallback_witness:
  "get_user_by_id quiet_ledger ''U1'' = Some (ex_user ''U1'' 0.1 1000 ''ACTIVE'')
   \<and> get_user_by_id quiet_ledger ''U2'' = Some (ex_user ''U2'' 0.2 500 ''ACTIVE'')
   \<and> u_status (ex_user ''U1'' 0.1 1000 ''ACTIVE'') \<noteq> ''FROZEN''
   \<and> \<not> balance (ex_user ''U1'' 0.1 1000 ''ACTIVE'') < 50
   \<and> (\<exists>res d'. create_transaction (\<lambda>d uid. Inl ()) 200000 quiet_ledger ''U1'' ''U2'' 50
                   ''USD'' ''transfer'' = Inr (res, d')
         \<and> r_ai_risk_score res = 0.1
         \<and> r_status res \<in> {''BLOCKED'', ''FLAGGED'', ''APPROVED''})"
proof -
  have h1: "get_user_by_id quiet_ledger ''U1'' = Some (ex_user ''U1'' 0.1 1000 ''ACTIVE'')"
    by code_simp
  have h2: "get_user_by_id quiet_ledger ''U2'' = Some (ex_user ''U2'' 0.2 500 ''ACTIVE'')"
    by code_simp
  have h3: "u_status (ex_user ''U1'' 0.1 1000 ''ACTIVE'') \<noteq> ''FROZEN''"
    by (simp add: ex_user_def)
  have h4: "\<not> balance (ex_user ''U1'' 0.1 1000 ''ACTIVE'') < 50"
    by (simp add: ex_user_def)
  have h5: "(\<lambda>d uid. Inl ()) quiet_ledger ''U1'' = (Inl () :: unit + fraud_result)"
    by simp
  have r: "risk_score (ex_user ''U1'' 0.1 1000 ''ACTIVE'') = 0.1"
    by (simp add: ex_user_def)
  show ?thesis
    using scorer_failure_fallback [OF h1 h2 h3 h4 h5, of 200000 "''USD''" "''transfer''"] h1 h2 h3 h4
    unfolding r by blast
qed




section \<open>Properties of the subgraph extractor\<close>

lemma expand_mono: "set (expand txs n v l) \<subseteq> set (expand txs (Suc n) v l)"
proof (induction n arbitrary: v l)
  case 0
  show ?case by (auto simp add: Let_def)
next
  case (Suc n)
  show ?case
    using Suc.IH [of "v @ filter (\<lambda>x. x \<notin> set v) (neighbors txs l)"
                     "filter (\<lambda>x. x \<notin> set v) (neighbors txs l)"]
    by (simp add: Let_def)
qed

lemma expand_keeps: "set v \<subseteq> set (expand txs n v l)"
proof (induction n arbitrary: v l)
  case 0
  show ?case by simp
next
  case (Suc n)
  show ?case
    using Suc.IH [of "v @ filter (\<lambda>x. x \<notin> set v) (neighbors txs l)"
                     "filter (\<lambda>x. x \<notin> set v) (neighbors txs l)"]
    by (simp add: Let_def)
qed

lemma set_map_filter_mono:
  "set xs \<subseteq> set ys \<Longrightarrow> set (List.map_filter f xs) \<subseteq> set (List.map_filter f ys)"
  by (auto simp add: List.map_filter_def)

text \<open>
  Claim C7. Over one ledger, for every focal account and every depth \<open>d \<ge> 1\<close>, the nodes
  returned at depth \<open>d\<close> are among the nodes returned at depth \<open>d + 1\<close>; the same holds of
  the visited account ids behind them.
\<close>

theorem subgraph_monotone:
  assumes "1 \<le> depth"
  shows "set (nodes (get_user_subgraph d uid depth))
           \<subseteq> set (nodes (get_user_subgraph d uid (depth + 1)))
         \<and> set (visited_nodes d uid depth) \<subseteq> set (visited_nodes d uid (depth + 1))"
proof -
  have n: "nat (depth + 1) = Suc (nat depth)" using assms by simp
  have v: "set (visited_nodes d uid depth) \<subseteq> set (visited_nodes d uid (depth + 1))"
    unfolding visited_nodes_def n by (rule expand_mono)
  have "set (nodes (get_user_subgraph d uid depth))
           \<subseteq> set (nodes (get_user_subgraph d uid (depth + 1)))"
    using set_map_filter_mono [OF v] by (simp add: get_user_subgraph_def Let_def)
  with v show ?thesis by simp
qed

text \<open>The theorem on a chain A, B, C, D at depth 1.\<close>

theorem subgraph_monotone_witness:
  "(1::int) \<le> 1
   \<and> map user_id (nodes (get_user_subgraph chain_ledger ''A'' 1)) = [''A'', ''B'']
   \<and> map user_id (nodes (get_user_subgraph chain_ledger ''A'' (1 + 1))) = [''A'', ''B'', ''C'']
   \<and> set (nodes (get_user_subgraph chain_ledger ''A'' 1))
         \<subseteq> set (nodes (get_user_subgraph chain_ledger ''A'' (1 + 1)))"
proof -
  have h: "(1::int) \<le> 1" by simp
  have e1: "map user_id (nodes (get_user_subgraph chain_ledger ''A'' 1)) = [''A'', ''B'']"
    by code_simp
  have e2: "map user_id (nodes (get_user_subgraph chain_ledger ''A'' (1 + 1))) = [''A'', ''B'', ''C'']"
    by code_simp
  show ?thesis
    using subgraph_monotone [OF h, of chain_ledger "''A''"] h e1 e2 by blast
qed

text \<open>
  Claim C8 says that subgraph extraction signals NotFound for a missing focal account,
  InvalidArgument for a depth \<open>\<le> 0\<close>, and returns normally otherwise. The route declares
  the depth with \<open>Query(2, ge=1, le=3)\<close>, so a depth of 4 on an existing account is
  rejected as well, and \<open>get_user_subgraph\<close> itself checks nothing: on a missing account
  and depth 0 it returns an empty node list.
\<close>

theorem subgraph_route_depth_counterexample:
  "fst (get_user_network chain_ledger ''A'' 4) = Inl RequestValidationError
   \<and> get_user_by_id chain_ledger ''A'' = Some (ex_user ''A'' 0.2 1000 ''ACTIVE'')
   \<and> map user_id (nodes (get_user_subgraph chain_ledger ''Z'' 0)) = []"
  by code_simp

text \<open>
  Claim C8, amended. The route rejects every depth outside \<open>1..3\<close> with a validation
  error, whether or not the account exists; for a depth in \<open>1..3\<close> it signals 404 when the
  focal account does not exist and returns the extracted subgraph when it does; and it
  leaves the ledger as it found it.
\<close>

theorem subgraph_route_errors:
  "(depth < 1 \<or> 3 < depth \<longrightarrow> fst (get_user_network d uid depth) = Inl RequestValidationError)
   \<and> (1 \<le> depth \<and> depth \<le> 3 \<and> get_user_by_id d uid = None
        \<longrightarrow> fst (get_user_network d uid depth) = Inl (HTTPException 404 ''User not found''))
   \<and> (1 \<le> depth \<and> depth \<le> 3 \<and> get_user_by_id d uid \<noteq> None
        \<longrightarrow> fst (get_user_network d uid depth) = Inr (get_user_subgraph d uid depth))
   \<and> snd (get_user_network d uid depth) = d"
  by (auto simp add: get_user_network_def split: option.splits)

text \<open>The four cases of the amended claim on the chain ledger.\<close>

theorem subgraph_route_errors_witness:
  "fst (get_user_network chain_ledger ''A'' 0) = Inl RequestValidationError
   \<and> fst (get_user_network chain_ledger ''Z'' 0) = Inl RequestValidationError
   \<and> fst (get_user_network chain_ledger ''Z'' 2) = Inl (HTTPException 404 ''User not found'')
   \<and> fst (get_user_network chain_ledger ''A'' 2) = Inr (get_user_subgraph chain_ledger ''A'' 2)
   \<and> snd (get_user_network chain_ledger ''A'' 2) = chain_ledger"
proof -
  have n: "get_user_by_id chain_ledger ''Z'' = None" by code_simp
  have s: "get_user_by_id chain_ledger ''A'' \<noteq> None" by code_simp
  show ?thesis
    using subgraph_route_errors [of 0 chain_ledger "''A''"]
      subgraph_route_errors [of 0 chain_ledger "''Z''"]
      subgraph_route_errors [of 2 chain_ledger "''Z''"]
      subgraph_route_errors [of 2 chain_ledger "''A''"] n s
    by simp
qed

section \<open>Properties of the risk scorer\<close>

lemma max_amount_Max: "max_amount xs = (if xs = [] then 0 else Max (set xs))"
proof (cases xs)
  case Nil
  then show ?thesis by simp
next
  case (Cons a as)
  have "Max (set (a # as)) = fold max as a" by (rule Max.set_eq_fold)
  with Cons show ?thesis by simp
qed

lemma neighbors_visited:
  "set (neighbors txs [uid]) \<subseteq> set (expand txs (Suc n) [uid] [uid])"
proof -
  let ?next = "filter (\<lambda>x. x \<notin> set [uid]) (neighbors txs [uid])"
  have "set (neighbors txs [uid]) \<subseteq> set ([uid] @ ?next)" by auto
  also have "\<dots> \<subseteq> set (expand txs n ([uid] @ ?next) ?next)" by (rule expand_keeps)
  finally show ?thesis by (simp add: Let_def)
qed

lemma incident_in_visited:
  assumes "t \<in> set txs" and "source_user_id t = uid \<or> target_user_id t = uid"
  shows "source_user_id t \<in> set (expand txs (Suc n) [uid] [uid])
       \<and> target_user_id t \<in> set (expand txs (Suc n) [uid] [uid])"
proof -
  have u: "uid \<in> set (expand txs (Suc n) [uid] [uid])"
    using expand_keeps [of "[uid]" txs "Suc n" "[uid]"] by simp
  from assms have "source_user_id t = uid \<and> target_user_id t \<in> set (neighbors txs [uid])
      \<or> target_user_id t = uid \<and> source_user_id t \<in> set (neighbors txs [uid])"
    by (auto simp add: neighbors_def)
  with u neighbors_visited [of txs uid n] show ?thesis by auto
qed

lemma incident_links:
  "filter (\<lambda>l. l_source l = uid \<or> l_target l = uid) (links (get_user_subgraph d uid 2))
   = map to_link (incident_transactions d uid)"
proof -
  have two: "nat 2 = Suc (Suc 0)" by simp
  have "filter (\<lambda>t. source_user_id t = uid \<or> target_user_id t = uid)
          (filter (\<lambda>t. source_user_id t \<in> set (visited_nodes d uid 2)
                      \<and> target_user_id t \<in> set (visited_nodes d uid 2)) (transactions d))
        = filter (\<lambda>t. source_user_id t = uid \<or> target_user_id t = uid) (transactions d)"
    unfolding filter_filter visited_nodes_def two
    by (rule filter_cong [OF refl]) (use incident_in_visited in blast)
  then show ?thesis
    by (simp add: get_user_subgraph_def Let_def incident_transactions_def filter_map comp_def
          to_link_def)
qed

lemma detect_fraud_risk_probability:
  assumes "get_user_by_id d uid = Some usr"
  shows "map_sum id risk_probability (detect_fraud d uid)
           = Inr (round4 (calculate_risk_score uid usr (get_user_subgraph d uid 2)))"
  using assms by (simp add: detect_fraud_def Let_def)

text \<open>
  Claim C5. For an existing account, the value \<open>_calculate_risk_score\<close> returns on the
  account's 2-hop subgraph is the blend \<open>0.30 base + 0.25 neighbours + 0.15 volume +
  0.15 high value + 0.15 structuring\<close> clamped to \<open>[0, 1]\<close>, with the factors as the
  specification describes them: the stored risk, the mean stored risk of the other accounts
  of the subgraph (0.5 when there are none), the number of incident transactions over 20,
  the largest incident amount over 100000 and the number of incident amounts in
  \<open>[9000, 9999]\<close> over 3, each capped at 1. Floats are read as real numbers.
\<close>

theorem risk_score_blend:
  assumes "get_user_by_id d uid = Some usr"
  shows "calculate_risk_score uid usr (get_user_subgraph d uid 2) =
           min (max (0.30 * risk_score usr + 0.25 * spec_avg_neighbor_risk d uid
                     + 0.15 * spec_volume_risk d uid + 0.15 * spec_high_value_risk d uid
                     + 0.15 * spec_structuring_risk d uid) 0) 1
         \<and> 0 \<le> calculate_risk_score uid usr (get_user_subgraph d uid 2)
         \<and> calculate_risk_score uid usr (get_user_subgraph d uid 2) \<le> 1"
proof -
  have amounts: "map l_amount (map to_link (incident_transactions d uid))
                   = map amount (incident_transactions d uid)"
    by (simp add: to_link_def comp_def)
  have str: "length (filter in_structuring_range (map amount (incident_transactions d uid)))
      = length (filter (\<lambda>t. 9000 \<le> amount t \<and> amount t \<le> 9999) (incident_transactions d uid))"
    by (simp add: filter_map comp_def in_structuring_range_def)
  have blend: "a * 0.3 + b * 0.25 + c * 0.15 + e * 0.15 + f * 0.15
                 = 0.30 * a + 0.25 * b + 0.15 * c + 0.15 * e + 0.15 * f" for a b c e f :: real
    by simp
  have eq: "calculate_risk_score uid usr (get_user_subgraph d uid 2) =
           min (max (0.30 * risk_score usr + 0.25 * spec_avg_neighbor_risk d uid
                     + 0.15 * spec_volume_risk d uid + 0.15 * spec_high_value_risk d uid
                     + 0.15 * spec_structuring_risk d uid) 0) 1"
    unfolding calculate_risk_score_def Let_def incident_links amounts str max_amount_Max blend
      spec_avg_neighbor_risk_def spec_volume_risk_def spec_high_value_risk_def
      spec_structuring_risk_def length_map map_is_Nil_conv
    by (rule refl)
  have range: "0 \<le> min (max x 0) 1 \<and> min (max x 0) 1 \<le> 1" for x :: real
    by simp
  show ?thesis
    unfolding eq using range by blast
qed

text \<open>The theorem at account A of the chain ledger, whose score is 0.305.\<close>

theorem risk_score_blend_witness:
  "get_user_by_id chain_ledger ''A'' = Some (ex_user ''A'' 0.2 1000 ''ACTIVE'')
   \<and> spec_avg_neighbor_risk chain_ledger ''A'' = 0.6
   \<and> spec_volume_risk chain_ledger ''A'' = 0.1
   \<and> spec_high_value_risk chain_ledger ''A'' = 0.2
   \<and> spec_structuring_risk chain_ledger ''A'' = 1 / 3
   \<and> calculate_risk_score ''A'' (ex_user ''A'' 0.2 1000 ''ACTIVE'')
         (get_user_subgraph chain_ledger ''A'' 2) = 0.305"
proof -
  have h: "get_user_by_id chain_ledger ''A'' = Some (ex_user ''A'' 0.2 1000 ''ACTIVE'')"
    by code_simp
  have e1: "spec_avg_neighbor_risk chain_ledger ''A'' = 0.6" by code_simp
  have e2: "spec_volume_risk chain_ledger ''A'' = 0.1" by code_simp
  have e3: "spec_high_value_risk chain_ledger ''A'' = 0.2" by code_simp
  have e4: "spec_structuring_risk chain_ledger ''A'' = 1 / 3" by code_simp
  have r: "risk_score (ex_user ''A'' 0.2 1000 ''ACTIVE'') = 0.2" by (simp add: ex_user_def)
  have "calculate_risk_score ''A'' (ex_user ''A'' 0.2 1000 ''ACTIVE'')
         (get_user_subgraph chain_ledger ''A'' 2) = 0.305"
    using risk_score_blend [OF h] unfolding e1 e2 e3 e4 r by simp
  with h e1 e2 e3 e4 show ?thesis by blast
qed

section \<open>Properties of the ring detector\<close>

lemma ring_ids_make_ring [simp]: "ring_ids (make_ring d p) = p"
  by (simp add: ring_ids_def make_ring_def comp_def)

lemma well_formed_make_ring:
  "3 \<le> length p \<Longrightarrow> distinct p \<Longrightarrow> well_formed_ring (make_ring d p)"
  unfolding well_formed_ring_def ring_ids_make_ring by (simp add: make_ring_def)

lemma dfs_well_formed:
  "r \<in> set (dfs max_depth adj d start current p visited depth) \<Longrightarrow> distinct p
     \<Longrightarrow> set p = visited \<Longrightarrow> well_formed_ring r"
proof (induction max_depth adj d start current p visited depth rule: dfs.induct)
  case (1 max_depth adj d start current p visited depth)
  note unf = dfs.simps [of max_depth adj d start current p visited depth]
  have nd: "\<not> max_depth < depth"
  proof
    assume "max_depth < depth"
    then have "dfs max_depth adj d start current p visited depth = []"
      by (subst unf) simp
    with "1.prems"(1) show False by simp
  qed
  have unf': "dfs max_depth adj d start current p visited depth =
      concat (map (\<lambda>e. if e_target e = start \<and> 3 \<le> length p then [make_ring d p]
                      else if e_target e \<notin> visited
                      then dfs max_depth adj d start (e_target e) (p @ [e_target e])
                             (insert (e_target e) visited) (depth + 1)
                      else []) (adj_get adj current))"
    by (subst unf) (simp only: nd if_False Let_def)
  from "1.prems"(1) obtain e where e: "e \<in> set (adj_get adj current)"
    and r: "r \<in> set (if e_target e = start \<and> 3 \<le> length p then [make_ring d p]
                      else if e_target e \<notin> visited
                      then dfs max_depth adj d start (e_target e) (p @ [e_target e])
                             (insert (e_target e) visited) (depth + 1)
                      else [])"
    unfolding unf' set_concat set_map by blast
  show ?case
  proof (cases "e_target e = start \<and> 3 \<le> length p")
    case True
    with r have "r = make_ring d p" by simp
    with True "1.prems"(2) show ?thesis by (simp add: well_formed_make_ring)
  next
    case False
    with r have nv: "e_target e \<notin> visited"
      and r': "r \<in> set (dfs max_depth adj d start (e_target e) (p @ [e_target e])
                         (insert (e_target e) visited) (depth + 1))"
      by (auto split: if_splits)
    show ?thesis
      by (rule "1.IH" [OF nd e refl False nv r'])
         (use nv "1.prems"(2,3) in auto)
  qed
qed


lemma all_rings_well_formed:
  assumes "r \<in> set (all_rings d max_depth)"
  shows "well_formed_ring r"
proof -
  from assms obtain s where
    "r \<in> set (dfs max_depth (build_adj (transactions d)) d s s [s] {s} 0)"
    unfolding all_rings_def Let_def set_concat set_map by blast
  then show ?thesis by (rule dfs_well_formed) simp_all
qed

lemma sort_eq_iff_set_eq:
  fixes xs ys :: "string list"
  assumes "distinct xs" and "distinct ys"
  shows "sort xs = sort ys \<longleftrightarrow> set xs = set ys"
proof
  assume "sort xs = sort ys"
  then have "set (sort xs) = set (sort ys)" by simp
  then show "set xs = set ys" by simp
next
  assume "set xs = set ys"
  with assms have "mset xs = mset ys" by (simp add: set_eq_iff_mset_eq_distinct)
  then have "mset (sort ys) = mset xs" by simp
  then show "sort xs = sort ys"
    by (rule properties_for_sort) simp
qed

lemma fold_dedup_snoc:
  "fold dedup_step (rs @ [r]) st = dedup_step r (fold dedup_step rs st)"
  by simp

lemma fst_dedup_step: "fst (dedup_step r st) = insert (sort (ring_ids r)) (fst st)"
  by (auto simp add: dedup_step_def Let_def)

lemma snd_dedup_step:
  "snd (dedup_step r st) = (if sort (ring_ids r) \<in> fst st then snd st else snd st @ [r])"
  by (simp add: dedup_step_def Let_def)

lemma seen_after_fold:
  "fst (fold dedup_step rs ({}, [])) = (\<lambda>r. sort (ring_ids r)) ` set rs"
proof (induction rs rule: rev_induct)
  case Nil
  show ?case by simp
next
  case (snoc r rs)
  show ?case
    unfolding fold_dedup_snoc fst_dedup_step snoc.IH by simp
qed

lemma unique_rings_snoc:
  "unique_rings (rs @ [r]) =
     (if sort (ring_ids r) \<in> (\<lambda>r. sort (ring_ids r)) ` set rs then unique_rings rs
      else unique_rings rs @ [r])"
  unfolding unique_rings_def fold_dedup_snoc snd_dedup_step seen_after_fold
  by (rule refl)

lemma first_of_its_set_append:
  assumes "j < length rs"
  shows "first_of_its_set (rs @ [r]) j = first_of_its_set rs j"
  using assms by (simp add: first_of_its_set_def list_all_iff nth_append)

lemma first_of_its_set_last:
  "first_of_its_set (rs @ [r]) (length rs) \<longleftrightarrow>
     set (ring_ids r) \<notin> (\<lambda>r. set (ring_ids r)) ` set rs"
proof -
  have "first_of_its_set (rs @ [r]) (length rs)
          \<longleftrightarrow> (\<forall>k<length rs. set (ring_ids (rs ! k)) \<noteq> set (ring_ids r))"
    by (auto simp add: first_of_its_set_def list_all_iff nth_append)
  also have "\<dots> \<longleftrightarrow> (\<forall>x\<in>set rs. set (ring_ids x) \<noteq> set (ring_ids r))"
    by (simp add: all_set_conv_all_nth)
  also have "\<dots> \<longleftrightarrow> set (ring_ids r) \<notin> (\<lambda>r. set (ring_ids r)) ` set rs"
    by auto
  finally show ?thesis .
qed

lemma spec_first_rings_snoc:
  "spec_first_rings (rs @ [r]) =
     (if set (ring_ids r) \<in> (\<lambda>r. set (ring_ids r)) ` set rs then spec_first_rings rs
      else spec_first_rings rs @ [r])"
proof -
  have f: "filter (first_of_its_set (rs @ [r])) [0..<length rs]
             = filter (first_of_its_set rs) [0..<length rs]"
    by (rule filter_cong [OF refl]) (simp add: first_of_its_set_append)
  have m: "map (nth (rs @ [r])) (filter (first_of_its_set rs) [0..<length rs])
             = map (nth rs) (filter (first_of_its_set rs) [0..<length rs])"
    by (rule map_cong [OF refl]) (simp add: nth_append)
  show ?thesis
    by (simp add: spec_first_rings_def f m first_of_its_set_last)
qed

lemma unique_rings_spec:
  assumes "\<And>r. r \<in> set rs \<Longrightarrow> distinct (ring_ids r)"
  shows "unique_rings rs = spec_first_rings rs"
  using assms
proof (induction rs rule: rev_induct)
  case Nil
  show ?case by (simp add: unique_rings_def spec_first_rings_def)
next
  case (snoc r rs)
  have wf: "\<And>x. x \<in> set rs \<Longrightarrow> distinct (ring_ids x)" and wr: "distinct (ring_ids r)"
    using snoc.prems by simp_all
  have "sort (ring_ids r) = sort (ring_ids x) \<longleftrightarrow> set (ring_ids r) = set (ring_ids x)"
    if "x \<in> set rs" for x
    by (rule sort_eq_iff_set_eq [OF wr wf [OF that]])
  then have "sort (ring_ids r) \<in> (\<lambda>r. sort (ring_ids r)) ` set rs
          \<longleftrightarrow> set (ring_ids r) \<in> (\<lambda>r. set (ring_ids r)) ` set rs"
    unfolding image_iff by blast
  with snoc.IH [OF wf] show ?case
    by (simp add: unique_rings_snoc spec_first_rings_snoc)
qed

lemma spec_first_rings_subset: "set (spec_first_rings rs) \<subseteq> set rs"
  by (auto simp add: spec_first_rings_def)

lemma spec_first_rings_distinct:
  "distinct (map (\<lambda>r. set (ring_ids r)) (spec_first_rings rs))"
proof (induction rs rule: rev_induct)
  case Nil
  show ?case by (simp add: spec_first_rings_def)
next
  case (snoc r rs)
  then show ?case
    using spec_first_rings_subset [of rs]
    by (auto simp add: spec_first_rings_snoc)
qed

lemma spec_first_rings_subseq: "subseq (spec_first_rings rs) rs"
proof (induction rs rule: rev_induct)
  case Nil
  show ?case by (simp add: spec_first_rings_def)
next
  case (snoc r rs)
  have a: "subseq (spec_first_rings rs) (rs @ [r])"
    using list_emb_append_mono [OF snoc.IH, of "[]" "[r]"] by simp
  have b: "subseq (spec_first_rings rs @ [r]) (rs @ [r])"
    using list_emb_append_mono [OF snoc.IH, of "[r]" "[r]"] by simp
  show ?case using a b by (simp add: spec_first_rings_snoc)
qed

text \<open>
  Claim C6. Every ring that ring detection returns has a path of at least 3 accounts
  without a duplicate, and its \<open>ring_length\<close> is the length of that path; the returned
  list is the first 20 of the discovered rings that are the first with their set of
  account ids, in discovery order, so no two returned rings have the same set of account
  ids and at most 20 rings are returned.
\<close>

theorem ring_detection:
  "(\<forall>r \<in> set (find_laundering_rings d max_depth).
       3 \<le> length (path r) \<and> distinct (ring_ids r) \<and> ring_length r = length (path r))
   \<and> find_laundering_rings d max_depth = take 20 (spec_first_rings (all_rings d max_depth))
   \<and> distinct (map (\<lambda>r. set (ring_ids r)) (find_laundering_rings d max_depth))
   \<and> subseq (find_laundering_rings d max_depth) (all_rings d max_depth)
   \<and> length (find_laundering_rings d max_depth) \<le> 20"
proof -
  let ?all = "all_rings d max_depth"
  have wf: "distinct (ring_ids r)" if "r \<in> set ?all" for r
    using all_rings_well_formed [OF that] by (simp add: well_formed_ring_def)
  have eq: "find_laundering_rings d max_depth = take 20 (spec_first_rings ?all)"
    unfolding find_laundering_rings_def using unique_rings_spec [of ?all] wf by simp
  have sub: "set (find_laundering_rings d max_depth) \<subseteq> set ?all"
    unfolding eq using set_take_subset spec_first_rings_subset by fast
  have 1: "\<forall>r \<in> set (find_laundering_rings d max_depth).
       3 \<le> length (path r) \<and> distinct (ring_ids r) \<and> ring_length r = length (path r)"
    using sub all_rings_well_formed unfolding well_formed_ring_def by blast
  have 3: "distinct (map (\<lambda>r. set (ring_ids r)) (find_laundering_rings d max_depth))"
    unfolding eq take_map [symmetric]
    by (rule distinct_take) (rule spec_first_rings_distinct)
  have "subseq (take 20 (spec_first_rings ?all)) (spec_first_rings ?all)"
    by (rule prefix_imp_subseq) (rule take_is_prefix)
  then have 4: "subseq (find_laundering_rings d max_depth) ?all"
    unfolding eq using spec_first_rings_subseq [of ?all] by (rule subseq_order.order_trans)
  have 5: "length (find_laundering_rings d max_depth) \<le> 20"
    by (simp add: find_laundering_rings_def)
  from 1 eq 3 4 5 show ?thesis by blast
qed

text \<open>The theorem on a ledger with the cycle A, B, C, found from each of its three accounts.\<close>

theorem ring_detection_witness:
  "map ring_ids (all_rings ring_ledger 6)
     = [[''A'', ''B'', ''C''], [''B'', ''C'', ''A''], [''C'', ''A'', ''B'']]
   \<and> map ring_ids (find_laundering_rings ring_ledger 6) = [[''A'', ''B'', ''C'']]
   \<and> find_laundering_rings ring_ledger 6 = take 20 (spec_first_rings (all_rings ring_ledger 6))
   \<and> subseq (find_laundering_rings ring_ledger 6) (all_rings ring_ledger 6)
   \<and> length (find_laundering_rings ring_ledger 6) \<le> 20
   \<and> list_all (\<lambda>r. 3 \<le> length (path r) \<and> distinct (ring_ids r))
        (find_laundering_rings ring_ledger 6)"
proof -
  have e1: "map ring_ids (all_rings ring_ledger 6)
     = [[''A'', ''B'', ''C''], [''B'', ''C'', ''A''], [''C'', ''A'', ''B'']]"
    by code_simp
  have e2: "map ring_ids (find_laundering_rings ring_ledger 6) = [[''A'', ''B'', ''C'']]"
    by code_simp
  show ?thesis
    using ring_detection [of ring_ledger 6] e1 e2
    unfolding list_all_iff by blast
qed

section \<open>Properties of the appeal workflow\<close>

lemma resolve_pending_idem:
  assumes "outcome \<noteq> ''PENDING''"
  shows "resolve_pending now' uid outcome' (resolve_pending now uid outcome as)
           = resolve_pending now uid outcome as"
  using assms by (induction as) (simp_all add: resolve_pending_def)

lemma resolve_pending_outcomes:
  "map (\<lambda>a. (a_status a, reviewed_at a))
       (filter (\<lambda>a. a_user_id a = uid) (resolve_pending now uid outcome as))
   = map (\<lambda>a. if a_status a = ''PENDING'' then (outcome, Some now) else (a_status a, reviewed_at a))
       (filter (\<lambda>a. a_user_id a = uid) as)"
  by (induction as) (simp_all add: resolve_pending_def)

lemma get_user_appeals_update [simp]:
  "get_user_by_id (d\<lparr>appeals := as\<rparr>) x = get_user_by_id d x"
  by (simp add: get_user_by_id_def)

lemma reject_appeal_eq:
  assumes "get_user_by_id d uid = Some usr"
  shows "reject_appeal now d uid =
           (Inr \<lparr>resp_status = ''appeal_rejected'', resp_user_id = uid,
                  resp_message = ''Appeal rejected. User remains frozen.''\<rparr>,
            d\<lparr>appeals := resolve_pending now uid ''REJECTED'' (appeals d)\<rparr>)"
  using assms by (simp add: reject_appeal_def Let_def)

lemma user_after_reject:
  assumes "get_user_by_id d uid = Some usr"
  shows "get_user_by_id (snd (reject_appeal now d uid)) uid = Some usr"
  using assms by (simp add: reject_appeal_eq [OF assms])

text \<open>
  Rejection does what the specification says of it: every PENDING appeal of the account
  becomes REJECTED with the review timestamp and the \<open>users\<close> table, so the account
  status, stays as it was. A second rejection finds no PENDING appeal; it returns the same
  success response and leaves the ledger as the first one left it.
\<close>

lemma reject_appeal_resolution:
  assumes "get_user_by_id d uid = Some usr"
  shows "fst (reject_appeal now d uid)
           = Inr \<lparr>resp_status = ''appeal_rejected'', resp_user_id = uid,
                  resp_message = ''Appeal rejected. User remains frozen.''\<rparr>
       \<and> users (snd (reject_appeal now d uid)) = users d
       \<and> appeal_outcomes (snd (reject_appeal now d uid)) uid
           = map (\<lambda>(s, r). if s = ''PENDING'' then (''REJECTED'', Some now) else (s, r))
               (appeal_outcomes d uid)
       \<and> fst (reject_appeal later (snd (reject_appeal now d uid)) uid)
           = fst (reject_appeal now d uid)
       \<and> snd (reject_appeal later (snd (reject_appeal now d uid)) uid)
           = snd (reject_appeal now d uid)"
proof -
  note r = reject_appeal_eq [OF assms, of now]
  note ur = user_after_reject [OF assms, of now]
  note rr = reject_appeal_eq [OF ur, of later]
  have ne: "''REJECTED'' \<noteq> ''PENDING''" by simp
  have 1: "fst (reject_appeal now d uid)
           = Inr \<lparr>resp_status = ''appeal_rejected'', resp_user_id = uid,
                  resp_message = ''Appeal rejected. User remains frozen.''\<rparr>"
    by (simp add: r)
  have 2: "users (snd (reject_appeal now d uid)) = users d"
    by (simp add: r)
  have 3: "appeal_outcomes (snd (reject_appeal now d uid)) uid
           = map (\<lambda>(s, r). if s = ''PENDING'' then (''REJECTED'', Some now) else (s, r))
               (appeal_outcomes d uid)"
    by (simp add: r appeal_outcomes_def resolve_pending_outcomes comp_def)
  have 4: "fst (reject_appeal later (snd (reject_appeal now d uid)) uid)
           = fst (reject_appeal now d uid)"
    by (simp add: rr 1)
  have 5: "snd (reject_appeal later (snd (reject_appeal now d uid)) uid)
           = snd (reject_appeal now d uid)"
    unfolding rr by (simp add: r resolve_pending_idem [OF ne])
  show ?thesis using 1 2 3 4 5 by blast
qed

text \<open>
  Approval never gets as far as the specification describes: for every existing account
  the handler answers 500 and leaves the ledger as it found it.
\<close>

lemma approve_appeal_locked:
  assumes "get_user_by_id d uid = Some usr"
  shows "approve_appeal now d uid = (Inl (HTTPException 500 ''database is locked''), d)"
  using assms by (simp add: approve_appeal_def update_user_status_during_def Let_def)

text \<open>
  Claim C9. Resolving a PENDING appeal as approved sets the account to ACTIVE and the
  appeal to APPROVED with its review timestamp. The handler does not do so: it writes the
  account status through a second connection while its own update of the appeal is
  uncommitted, the write is refused, and the handler answers 500. On the FROZEN account D
  with one PENDING appeal, approval at time 2000 returns that error and leaves the ledger
  unchanged: D stays FROZEN and the appeal stays PENDING without a review timestamp.
\<close>

theorem approve_appeal_changes_nothing:
  "account_status appeal_ledger ''D'' = Some ''FROZEN''
   \<and> appeal_outcomes appeal_ledger ''D'' = [(''PENDING'', None)]
   \<and> approve_appeal 2000 appeal_ledger ''D''
        = (Inl (HTTPException 500 ''database is locked''), appeal_ledger)
   \<and> account_status (snd (approve_appeal 2000 appeal_ledger ''D'')) ''D'' = Some ''FROZEN''
   \<and> appeal_outcomes (snd (approve_appeal 2000 appeal_ledger ''D'')) ''D'' = [(''PENDING'', None)]"
proof -
  have h: "get_user_by_id appeal_ledger ''D'' = Some (ex_user ''D'' 0.3 1000 ''FROZEN'')"
    by code_simp
  have s: "account_status appeal_ledger ''D'' = Some ''FROZEN''"
    by code_simp
  have o: "appeal_outcomes appeal_ledger ''D'' = [(''PENDING'', None)]"
    by code_simp
  show ?thesis
    using s o by (simp add: approve_appeal_locked [OF h])
qed

end
